theory Spec2Isabelle
  imports Main "HOL-Library.Word" "HOL-Library.Multiset"
begin

unbundle bit_operations_syntax

section \<open>Data model of \<open>include/Inotify.h\<close>\<close>

text \<open>
  The class \<open>Inotify\<close> of \<open>include/Inotify.h\<close> keeps three lists: the watches, the
  handler bindings (\<open>sig_info\<close>) and the queue of events read from the inotify file
  descriptor.  The three structs share the field names \<open>wd\<close> and \<open>mask\<close>; the records
  below prefix them with the struct's initial.  A watch descriptor is a C \<open>int\<close>, only
  ever compared for equality, and is modelled as \<open>int\<close>; masks, cookies and name lengths
  are \<open>uint32_t\<close>.  The event handler stored in a binding (a pointer to a freshly
  allocated \<open>Signal\<close> object) is represented by the name of the callable it wraps.
\<close>

type_synonym u32 = "32 word"
type_synonym byte = "8 word"
type_synonym handler = string

record Watch =
  w_mask :: u32
  w_path :: string
  w_wd :: int

record sig_info =
  s_mask :: u32
  s_sig :: handler
  s_wd :: int

record InotifyEvent =
  e_wd :: int
  e_mask :: u32
  e_cookie :: u32
  e_len :: u32
  e_name :: "byte list"

record inotify =
  event_queue :: "InotifyEvent list"
  sigs :: "sig_info list"
  watches :: "Watch list"

text \<open>
  Two places of the source leave the behaviour of the program undefined; the model
  returns them as values instead of hiding them:
  \<^item> \<open>detach(int wd)\<close> erases the list node its loop iterator points to and then
    increments that iterator;
  \<^item> the constructor of \<open>InotifyEvent\<close> builds the name with
    \<open>std::string(_event.name)\<close>, which scans for a terminating zero byte and runs
    past the bytes it was given when there is none; \<open>_emit_data\<close> of the second
    class reads header and name without any check against its buffer.
\<close>

datatype fault = Erased_Iterator_Advanced | Read_Past_Buffer

section \<open>Watch registry\<close>

text \<open>\<open>exists(wd)\<close>: linear search for the descriptor.\<close>

fun exists_loop :: "Watch list \<Rightarrow> int \<Rightarrow> bool" where
  "exists_loop [] d = False"
| "exists_loop (w # ws) d = (if w_wd w = d then True else exists_loop ws d)"

definition exists :: "int \<Rightarrow> inotify \<Rightarrow> bool" where
  "exists d st = exists_loop (watches st) d"

text \<open>
  \<open>update_watch(wd, mask)\<close>: the first watch with this descriptor gets the new mask and
  its descriptor is returned; \<open>-1\<close> when there is none.
\<close>

fun update_watch_loop :: "Watch list \<Rightarrow> int \<Rightarrow> u32 \<Rightarrow> int \<times> Watch list" where
  "update_watch_loop [] d m = (- 1, [])"
| "update_watch_loop (w # ws) d m =
     (if w_wd w = d then (w_wd w, w\<lparr>w_mask := m\<rparr> # ws)
      else (let (r, ws') = update_watch_loop ws d m in (r, w # ws')))"

definition update_watch :: "int \<Rightarrow> u32 \<Rightarrow> inotify \<Rightarrow> int \<times> inotify" where
  "update_watch d m st =
     (let (r, ws') = update_watch_loop (watches st) d m in (r, st\<lparr>watches := ws'\<rparr>))"

text \<open>
  \<open>add_watch(path, mask)\<close>.  The first argument is what the kernel call
  \<open>inotify_add_watch(_fd, path, mask)\<close> returned: the registry never looks a path up,
  it decides on the returned descriptor alone.  (The constructor of \<open>Watch\<close> takes the
  mask as \<open>int\<close> and stores it as \<open>uint32_t\<close>, which gives the same 32 bits back.)
\<close>

definition add_watch :: "int \<Rightarrow> string \<Rightarrow> u32 \<Rightarrow> inotify \<Rightarrow> int \<times> inotify" where
  "add_watch kernel_wd p m st =
     (if exists kernel_wd st then update_watch kernel_wd m st
      else if kernel_wd \<noteq> - 1
        then (kernel_wd, st\<lparr>watches := watches st @ [\<lparr>w_mask = m, w_path = p, w_wd = kernel_wd\<rparr>]\<rparr>)
        else (kernel_wd, st))"

section \<open>Handler table\<close>

text \<open>\<open>sig_exists(wd, mask)\<close>: is there a binding with exactly this descriptor and mask?\<close>

fun sig_exists_loop :: "sig_info list \<Rightarrow> int \<Rightarrow> u32 \<Rightarrow> bool" where
  "sig_exists_loop [] d m = False"
| "sig_exists_loop (s # ss) d m =
     (if s_wd s = d \<and> s_mask s = m then True else sig_exists_loop ss d m)"

definition sig_exists :: "int \<Rightarrow> u32 \<Rightarrow> inotify \<Rightarrow> bool" where
  "sig_exists d m st = sig_exists_loop (sigs st) d m"

text \<open>
  \<open>detach(wd, mask)\<close>: erases the first binding with this descriptor and mask and
  returns at once, so the erased iterator is never used again.
\<close>

fun detach_loop :: "sig_info list \<Rightarrow> int \<Rightarrow> u32 \<Rightarrow> bool \<times> sig_info list" where
  "detach_loop [] d m = (False, [])"
| "detach_loop (s # ss) d m =
     (if s_wd s = d \<and> s_mask s = m then (True, ss)
      else (let (r, ss') = detach_loop ss d m in (r, s # ss')))"

definition detach :: "int \<Rightarrow> u32 \<Rightarrow> inotify \<Rightarrow> bool \<times> inotify" where
  "detach d m st = (let (r, ss') = detach_loop (sigs st) d m in (r, st\<lparr>sigs := ss'\<rparr>))"

text \<open>
  \<open>detach(wd)\<close>:
  \<^verbatim>\<open>
  for (auto iter = _sigs.begin(), end = _sigs.end(); iter != end; ++iter)
      if (iter->wd == wd) { _sigs.erase(iter); success = true; }
  return success;
  \<close>
  \<open>std::list::erase\<close> invalidates the iterator of the erased element, and the loop
  header then executes \<open>++iter\<close> on it (it reads the link field of a node that has been
  freed).  Unlike the queue loop of \<open>poll(int)\<close>, which continues with the iterator
  that \<open>erase\<close> returns, this loop has no defined behaviour from the first match on.
  \<open>seen\<close> are the bindings already passed, which stay in the list.
\<close>

fun detach_wd_loop :: "sig_info list \<Rightarrow> sig_info list \<Rightarrow> int \<Rightarrow> bool \<Rightarrow> fault + (bool \<times> sig_info list)" where
  "detach_wd_loop seen [] d success = Inr (success, seen)"
| "detach_wd_loop seen (s # ss) d success =
     (if s_wd s = d then Inl Erased_Iterator_Advanced
      else detach_wd_loop (seen @ [s]) ss d success)"

definition detach_wd :: "int \<Rightarrow> inotify \<Rightarrow> fault + (bool \<times> inotify)" where
  "detach_wd d st =
     (case detach_wd_loop [] (sigs st) d False of
        Inl f \<Rightarrow> Inl f
      | Inr (r, ss') \<Rightarrow> Inr (r, st\<lparr>sigs := ss'\<rparr>))"

text \<open>
  \<open>attach(wd, mask, handler)\<close>.  The six overloads differ in the type of the callable
  only and share this body.  \<open>sig_attach\<close> is the result of \<open>Signal::attach\<close> on the new
  handler (the Signal library is not part of this repository): false for a callable it
  rejects.  \<open>AbortIfNot(c, v)\<close> returns \<open>v\<close> when \<open>c\<close> is false.
\<close>

definition attach :: "(handler \<Rightarrow> bool) \<Rightarrow> int \<Rightarrow> u32 \<Rightarrow> handler \<Rightarrow> inotify \<Rightarrow> bool \<times> inotify" where
  "attach sig_attach d m h st =
     (if \<not> exists d st then (False, st)
      else
        (let st1 = (if sig_exists d m st then snd (detach d m st) else st)
         in if \<not> sig_attach h then (False, st1)
            else (True, st1\<lparr>sigs := sigs st1 @ [\<lparr>s_mask = m, s_sig = h, s_wd = d\<rparr>]\<rparr>)))"

text \<open>
  \<open>rm_watch(int wd)\<close> and \<open>rm_watch(const std::string& path)\<close>.  \<open>inotify_rm_watch\<close>
  gives the result of the kernel call for a descriptor (0 on success).  Both loops
  \<open>break\<close> right after \<open>_watches.erase(iter)\<close>.  The path overload is declared
  \<open>int\<close> and returns the \<open>bool success\<close>, converted to \<open>0\<close> or \<open>1\<close>.
\<close>

fun rm_watch_loop :: "(int \<Rightarrow> int) \<Rightarrow> Watch list \<Rightarrow> int \<Rightarrow> bool \<times> Watch list" where
  "rm_watch_loop inotify_rm_watch [] d = (False, [])"
| "rm_watch_loop inotify_rm_watch (w # ws) d =
     (if w_wd w = d then (inotify_rm_watch (w_wd w) = 0, ws)
      else (let (r, ws') = rm_watch_loop inotify_rm_watch ws d in (r, w # ws')))"

definition rm_watch :: "(int \<Rightarrow> int) \<Rightarrow> int \<Rightarrow> inotify \<Rightarrow> fault + (bool \<times> inotify)" where
  "rm_watch inotify_rm_watch d st =
     (let (success, ws') = rm_watch_loop inotify_rm_watch (watches st) d
      in case detach_wd d (st\<lparr>watches := ws'\<rparr>) of
           Inl f \<Rightarrow> Inl f
         | Inr (r, st') \<Rightarrow> Inr (success, st'))"

fun rm_watch_path_loop :: "(int \<Rightarrow> int) \<Rightarrow> Watch list \<Rightarrow> string \<Rightarrow> bool \<times> int \<times> Watch list" where
  "rm_watch_path_loop inotify_rm_watch [] p = (False, - 1, [])"
| "rm_watch_path_loop inotify_rm_watch (w # ws) p =
     (if w_path w = p then (inotify_rm_watch (w_wd w) = 0, w_wd w, ws)
      else (let (r, d, ws') = rm_watch_path_loop inotify_rm_watch ws p in (r, d, w # ws')))"

definition rm_watch_path :: "(int \<Rightarrow> int) \<Rightarrow> string \<Rightarrow> inotify \<Rightarrow> fault + (int \<times> inotify)" where
  "rm_watch_path inotify_rm_watch p st =
     (let (success, d, ws') = rm_watch_path_loop inotify_rm_watch (watches st) p
      in case detach_wd d (st\<lparr>watches := ws'\<rparr>) of
           Inl f \<Rightarrow> Inl f
         | Inr (r, st') \<Rightarrow> Inr (if success then 1 else 0, st'))"

section \<open>Event stream parser\<close>

text \<open>
  \<open>struct inotify_event\<close> of \<open><sys/inotify.h>\<close> is
  \<open>{int wd; uint32_t mask; uint32_t cookie; uint32_t len; char name[];}\<close>: sixteen
  bytes of header, the name after them.  The fields are read through a pointer cast, in
  the byte order of the machine; inotify exists on Linux, and the model reads them
  little-endian, as x86 and ARM Linux do.
\<close>

definition sizeof_inotify_event :: nat where
  "sizeof_inotify_event = 16"

definition le32 :: "byte list \<Rightarrow> u32" where
  "le32 bs = foldr (\<lambda>b acc. ucast b OR push_bit 8 acc) (take 4 bs) 0"

text \<open>
  \<open>std::string(const char*)\<close>: the bytes before the first zero byte.  \<open>None\<close> when the
  rest of the buffer holds no zero byte and the scan would leave it.
\<close>

definition c_string :: "byte list \<Rightarrow> byte list option" where
  "c_string bs = (if 0 \<in> set bs then Some (takeWhile (\<lambda>b. b \<noteq> 0) bs) else None)"

text \<open>
  The constructor \<open>InotifyEvent(const struct inotify_event&)\<close>, applied to the bytes
  from the record's first byte to the end of the buffer.
\<close>

definition InotifyEvent_of :: "byte list \<Rightarrow> InotifyEvent option" where
  "InotifyEvent_of bs =
     (case c_string (drop sizeof_inotify_event bs) of
        None \<Rightarrow> None
      | Some nm \<Rightarrow>
          Some \<lparr>e_wd = sint (le32 bs), e_mask = le32 (drop 4 bs), e_cookie = le32 (drop 8 bs),
                e_len = le32 (drop 12 bs), e_name = nm\<rparr>)"

text \<open>
  \<open>update_queue(data, size)\<close>:
  \<^verbatim>\<open>
  for (const char* p = data; p < data + size;) {
      struct inotify_event* event = (inotify_event*)p;
      AbortIf(data + size <= p + sizeof (struct inotify_event), false, "incomplete write");
      _event_queue.push_back(InotifyEvent(*event));
      p += sizeof(struct inotify_event) + event->len;
  }
  return true;
  \<close>
  The loop is written over \<open>rest\<close>, the bytes from \<open>p\<close> to \<open>data + size\<close>: the loop runs
  while \<open>rest\<close> is not empty, \<open>data + size <= p + sizeof(...)\<close> is
  \<open>length rest \<le> 16\<close>, and advancing \<open>p\<close> drops bytes from \<open>rest\<close> (all of them when
  \<open>p\<close> passes the end).  Addresses are 64 bits wide and \<open>len\<close> is 32, so the pointer
  sum does not wrap.
\<close>

function update_queue_loop :: "byte list \<Rightarrow> InotifyEvent list \<Rightarrow> fault + (bool \<times> InotifyEvent list)" where
  "update_queue_loop rest q =
     (if rest = [] then Inr (True, q)
      else if length rest \<le> sizeof_inotify_event then Inr (False, q)
      else
        (case InotifyEvent_of rest of
           None \<Rightarrow> Inl Read_Past_Buffer
         | Some ev \<Rightarrow>
             update_queue_loop (drop (sizeof_inotify_event + unat (e_len ev)) rest) (q @ [ev])))"
  by pat_completeness auto
termination
  by (relation "measure (\<lambda>(rest, q). length rest)") (auto simp: sizeof_inotify_event_def)

declare update_queue_loop.simps [simp del]

definition update_queue :: "byte list \<Rightarrow> inotify \<Rightarrow> fault + (bool \<times> inotify)" where
  "update_queue data st =
     (case update_queue_loop data (event_queue st) of
        Inl f \<Rightarrow> Inl f
      | Inr (r, q') \<Rightarrow> Inr (r, st\<lparr>event_queue := q'\<rparr>))"

section \<open>Polling\<close>

text \<open>
  \<open>pollFd()\<close> asks the event sink to read the inotify descriptor; the sink hands what it
  read to \<open>update_queue\<close>, registered as its reader in the constructor, and reports a
  status code.  \<open>WriteEventSink\<close> is not part of this repository, so the outcome of one
  \<open>_event_sink.read()\<close> is a parameter: the bytes it passed to the reader, if it called
  it, and the code it returned.  \<open>pollFd\<close> succeeds on \<open>SUCCESS\<close> and on \<open>NO_DATA\<close>;
  what \<open>update_queue\<close> returned reaches \<open>pollFd\<close> only through that code.
\<close>

datatype err_code = SUCCESS | NO_DATA | OTHER_ERROR

record sink_read =
  delivered :: "byte list option"
  code :: err_code

definition pollFd :: "sink_read \<Rightarrow> inotify \<Rightarrow> fault + (bool \<times> inotify)" where
  "pollFd r st =
     (let ok = (code r = SUCCESS \<or> code r = NO_DATA)
      in case delivered r of
           None \<Rightarrow> Inr (ok, st)
         | Some data \<Rightarrow>
             (case update_queue data st of
                Inl f \<Rightarrow> Inl f
              | Inr (parsed, st') \<Rightarrow> Inr (ok, st')))"

text \<open>
  \<open>poll(int wd)\<close>.  The inner loop raises, in list order, every binding with this
  descriptor whose mask shares a bit with the event's mask; the outer loop does so for
  every queued event with this descriptor and erases the event.  What a handler does is
  outside the program; the model records each dispatch: the event, and the bindings
  raised for it in the order of the calls to \<open>v_raise\<close>.
\<close>

type_synonym dispatch = "InotifyEvent \<times> sig_info list"

fun raise_loop :: "sig_info list \<Rightarrow> int \<Rightarrow> InotifyEvent \<Rightarrow> sig_info list" where
  "raise_loop [] d ev = []"
| "raise_loop (s # ss) d ev =
     (if s_wd s = d \<and> (s_mask s AND e_mask ev) \<noteq> 0 then s # raise_loop ss d ev
      else raise_loop ss d ev)"

fun poll_loop :: "sig_info list \<Rightarrow> int \<Rightarrow> InotifyEvent list \<Rightarrow> InotifyEvent list \<times> dispatch list" where
  "poll_loop ss d [] = ([], [])"
| "poll_loop ss d (ev # evs) =
     (let (kept, log) = poll_loop ss d evs
      in if e_wd ev = d then (kept, (ev, raise_loop ss d ev) # log)
         else (ev # kept, log))"

definition poll_wd :: "sink_read \<Rightarrow> int \<Rightarrow> inotify \<Rightarrow> fault + (bool \<times> inotify \<times> dispatch list)" where
  "poll_wd r d st =
     (case pollFd r st of
        Inl f \<Rightarrow> Inl f
      | Inr (ok, st1) \<Rightarrow>
          if \<not> ok then Inr (False, st1, [])
          else (let (kept, log) = poll_loop (sigs st1) d (event_queue st1)
                in Inr (True, st1\<lparr>event_queue := kept\<rparr>, log)))"

text \<open>
  \<open>poll()\<close>: \<open>success = success && poll(iter->wd)\<close> for every watch of the registry, so
  a watch is polled only while all polls before it succeeded.  Each \<open>poll(int)\<close> reads
  the sink once; \<open>reads i\<close> is the outcome of the \<open>i\<close>-th read of this call.
\<close>

fun poll_all_loop :: "(nat \<Rightarrow> sink_read) \<Rightarrow> nat \<Rightarrow> Watch list \<Rightarrow> bool \<Rightarrow> inotify \<Rightarrow> dispatch list
    \<Rightarrow> fault + (bool \<times> inotify \<times> dispatch list)" where
  "poll_all_loop reads i [] success st log = Inr (success, st, log)"
| "poll_all_loop reads i (w # ws) success st log =
     (if success then
        (case poll_wd (reads i) (w_wd w) st of
           Inl f \<Rightarrow> Inl f
         | Inr (ok, st', log') \<Rightarrow> poll_all_loop reads (Suc i) ws ok st' (log @ log'))
      else poll_all_loop reads i ws False st log)"

definition poll_all :: "(nat \<Rightarrow> sink_read) \<Rightarrow> inotify \<Rightarrow> fault + (bool \<times> inotify \<times> dispatch list)" where
  "poll_all reads st = poll_all_loop reads 0 (watches st) True st []"

text \<open>
  \<open>poll(std::list<InotifyEvent>& _queue)\<close>: the caller's list is an in-out parameter.
  It is assigned only when the internal queue is not empty; no handler is raised.
\<close>

definition poll_queue :: "sink_read \<Rightarrow> InotifyEvent list \<Rightarrow> inotify
    \<Rightarrow> fault + (bool \<times> inotify \<times> InotifyEvent list)" where
  "poll_queue r out_queue st =
     (case pollFd r st of
        Inl f \<Rightarrow> Inl f
      | Inr (ok, st1) \<Rightarrow>
          if \<not> ok then Inr (False, st1, out_queue)
          else if event_queue st1 \<noteq> []
            then Inr (True, st1\<lparr>event_queue := []\<rparr>, event_queue st1)
            else Inr (True, st1, out_queue))"

section \<open>The parser of \<open>src/Inotify.cpp\<close>\<close>

text \<open>
  The repository has a second class \<open>Inotify\<close> (\<open>src/Inotify.h\<close>,
  \<open>src/Inotify.cpp\<close>) that emits every event on a signal instead of queueing it.
  Its \<open>Event\<close> has no length field; the name is
  \<open>std::string(evt_ptr->name, evt_ptr->len)\<close>, all \<open>len\<close> bytes of the name field.
  \<^verbatim>\<open>
  if (data_sig.is_connected()) {
      int nbytes = ::read(_fd.get(), _raw, bytes);
      if (nbytes < 0) return false;
      for (char* ptr = _raw; ptr < _raw + bytes;) {
          ... if (!data_sig.raise(event)) return false;
          ptr += sizeof(struct inotify_event) + evt_ptr->len;
      }
  }
  return true;
  \<close>
  Parameters: whether a handler is connected, what \<open>read\<close> returned, the result of
  \<open>data_sig.raise\<close> on an event, the contents of \<open>_raw\<close> after the read, and
  \<open>bytes\<close>.  \<open>buf\<close> is \<open>_raw\<close> from \<open>ptr\<close> on and \<open>left\<close> the distance from
  \<open>ptr\<close> to \<open>_raw + bytes\<close>, zero once \<open>ptr\<close> has passed it.  The loop has no
  bounds check: a header or a name that does not fit into \<open>_raw\<close> is read past its
  end.  The result carries the events raised, in order.
\<close>

record Event =
  ev_wd :: int
  ev_mask :: u32
  ev_cookie :: u32
  ev_name :: "byte list"

definition Event_at :: "byte list \<Rightarrow> (Event \<times> nat) option" where
  "Event_at buf =
     (let len = unat (le32 (drop 12 buf))
      in if length buf < sizeof_inotify_event + len then None
         else Some (\<lparr>ev_wd = sint (le32 buf), ev_mask = le32 (drop 4 buf),
                     ev_cookie = le32 (drop 8 buf),
                     ev_name = take len (drop sizeof_inotify_event buf)\<rparr>,
                    sizeof_inotify_event + len))"

function emit_data_loop :: "(Event \<Rightarrow> bool) \<Rightarrow> byte list \<Rightarrow> nat \<Rightarrow> Event list
    \<Rightarrow> fault + (bool \<times> Event list)" where
  "emit_data_loop data_sig_raise buf left raised =
     (if left = 0 then Inr (True, raised)
      else
        (case Event_at buf of
           None \<Rightarrow> Inl Read_Past_Buffer
         | Some (event, n) \<Rightarrow>
             if \<not> data_sig_raise event then Inr (False, raised @ [event])
             else emit_data_loop data_sig_raise (drop n buf) (left - n) (raised @ [event])))"
  by pat_completeness auto
termination
  by (relation "measure (\<lambda>(f, buf, left, raised). left)")
     (auto simp: Event_at_def Let_def sizeof_inotify_event_def split: if_splits)

definition emit_data :: "bool \<Rightarrow> int \<Rightarrow> (Event \<Rightarrow> bool) \<Rightarrow> byte list \<Rightarrow> nat
    \<Rightarrow> fault + (bool \<times> Event list)" where
  "emit_data is_connected nbytes data_sig_raise raw bytes =
     (if is_connected then
        (if nbytes < 0 then Inr (False, [])
         else emit_data_loop data_sig_raise raw bytes [])
      else Inr (True, []))"

section \<open>Vocabulary of the statements\<close>

text \<open>
  A binding is identified by its descriptor and its trigger mask.  \<open>attach\<close> removes a
  binding with the same key before it appends one, so the keys of the table are
  distinct in every state reached from the empty table.
\<close>

definition binding_key :: "sig_info \<Rightarrow> int \<times> u32" where
  "binding_key s = (s_wd s, s_mask s)"

text \<open>The test of the inner loop of \<open>poll(int)\<close>, for a poll of descriptor \<open>d\<close>.\<close>

definition fires :: "int \<Rightarrow> InotifyEvent \<Rightarrow> sig_info \<Rightarrow> bool" where
  "fires d ev s \<longleftrightarrow> s_wd s = d \<and> (s_mask s AND e_mask ev) \<noteq> 0"

text \<open>
  The events one read of the sink adds to the queue: those \<open>update_queue\<close> parses from
  the delivered bytes.
\<close>

definition arrived :: "sink_read \<Rightarrow> InotifyEvent list" where
  "arrived r =
     (case delivered r of
        None \<Rightarrow> []
      | Some data \<Rightarrow> (case update_queue_loop data [] of Inl f \<Rightarrow> [] | Inr (parsed, evs) \<Rightarrow> evs))"

text \<open>A read that finds nothing, and a sink that has nothing at every read.\<close>

definition no_data :: sink_read where
  "no_data = \<lparr>delivered = None, code = NO_DATA\<rparr>"

definition quiet_sink :: "nat \<Rightarrow> sink_read" where
  "quiet_sink k = no_data"

text \<open>
  The wire format, to describe buffers: a record as the kernel writes it, with the name
  field of \<open>len\<close> bytes (the name, its terminating zero and the padding).  A record
  for an entry of a watched directory has a zero-terminated name; an event on the
  watched object itself has no name field at all.
\<close>

definition enc32 :: "u32 \<Rightarrow> byte list" where
  "enc32 w = [ucast w, ucast (drop_bit 8 w), ucast (drop_bit 16 w), ucast (drop_bit 24 w)]"

record wire_record =
  r_wd :: u32
  r_mask :: u32
  r_cookie :: u32
  r_name :: "byte list"

definition encode :: "wire_record \<Rightarrow> byte list" where
  "encode r = enc32 (r_wd r) @ enc32 (r_mask r) @ enc32 (r_cookie r)
                @ enc32 (of_nat (length (r_name r))) @ r_name r"

definition terminated_name :: "wire_record \<Rightarrow> bool" where
  "terminated_name r \<longleftrightarrow> 0 \<in> set (r_name r) \<and> length (r_name r) < 2 ^ 32"

definition event_of :: "wire_record \<Rightarrow> InotifyEvent" where
  "event_of r = \<lparr>e_wd = sint (r_wd r), e_mask = r_mask r, e_cookie = r_cookie r,
                  e_len = of_nat (length (r_name r)),
                  e_name = takeWhile (\<lambda>b. b \<noteq> 0) (r_name r)\<rparr>"

section \<open>Example states and buffers\<close>

text \<open>
  The masks are those of \<open><sys/inotify.h>\<close>: \<open>IN_MODIFY = 0x2\<close>,
  \<open>IN_CREATE = 0x100\<close>, \<open>IN_DELETE = 0x200\<close>, \<open>IN_DELETE_SELF = 0x400\<close>,
  \<open>IN_IGNORED = 0x8000\<close>.  The example for \<open>Signal::attach\<close> rejects the callable
  without a name.
\<close>

definition st_one_binding :: inotify where
  "st_one_binding =
     \<lparr>event_queue = [],
      sigs = [\<lparr>s_mask = 256, s_sig = ''create_callback'', s_wd = 1\<rparr>],
      watches = [\<lparr>w_mask = 768, w_path = ''/tmp/d'', w_wd = 1\<rparr>]\<rparr>"

definition st_two_bindings :: inotify where
  "st_two_bindings =
     \<lparr>event_queue = [],
      sigs = [\<lparr>s_mask = 256, s_sig = ''create_callback'', s_wd = 2\<rparr>,
              \<lparr>s_mask = 768, s_sig = ''create_delete_callback'', s_wd = 2\<rparr>],
      watches = [\<lparr>w_mask = 770, w_path = ''/tmp/d'', w_wd = 2\<rparr>]\<rparr>"

definition st_watch_5 :: inotify where
  "st_watch_5 =
     \<lparr>event_queue = [], sigs = [],
      watches = [\<lparr>w_mask = 768, w_path = ''/tmp/d'', w_wd = 5\<rparr>]\<rparr>"

text \<open>A kernel whose \<open>inotify_rm_watch\<close> succeeds on every descriptor.\<close>

definition kernel_rm_ok :: "int \<Rightarrow> int" where
  "kernel_rm_ok d = 0"

definition ev_create_delete :: InotifyEvent where
  "ev_create_delete = \<lparr>e_wd = 1, e_mask = 768, e_cookie = 0, e_len = 16, e_name = [102, 111, 111]\<rparr>"

definition ev_ignored :: InotifyEvent where
  "ev_ignored = \<lparr>e_wd = 2, e_mask = 32768, e_cookie = 0, e_len = 0, e_name = []\<rparr>"

definition b_create :: sig_info where
  "b_create = \<lparr>s_mask = 256, s_sig = ''create_callback'', s_wd = 1\<rparr>"

definition b_create_delete :: sig_info where
  "b_create_delete = \<lparr>s_mask = 768, s_sig = ''create_delete_callback'', s_wd = 1\<rparr>"

definition st_two_watches :: inotify where
  "st_two_watches =
     \<lparr>event_queue = [], sigs = [b_create],
      watches = [\<lparr>w_mask = 768, w_path = ''/tmp/d'', w_wd = 1\<rparr>,
                 \<lparr>w_mask = 2, w_path = ''/tmp/f'', w_wd = 5\<rparr>]\<rparr>"

definition st_polled :: inotify where
  "st_polled =
     \<lparr>event_queue = [ev_create_delete, ev_ignored],
      sigs = [b_create, b_create_delete],
      watches = [\<lparr>w_mask = 768, w_path = ''/tmp/d'', w_wd = 1\<rparr>]\<rparr>"

text \<open>
  A complete record without a name (descriptor 1, \<open>IN_DELETE_SELF\<close>, \<open>len = 0\<close>); a
  record whose header announces sixteen bytes of name and that ends after two; the
  record of \<open>foo\<close> created in the directory watched as 5.
\<close>

definition self_event_record :: "byte list" where
  "self_event_record = [1, 0, 0, 0,  0, 4, 0, 0,  0, 0, 0, 0,  0, 0, 0, 0]"

definition cut_name_record :: "byte list" where
  "cut_name_record = [1, 0, 0, 0,  0, 1, 0, 0,  0, 0, 0, 0,  16, 0, 0, 0,  97, 0]"

definition rec_foo :: wire_record where
  "rec_foo = \<lparr>r_wd = 5, r_mask = 256, r_cookie = 0,
              r_name = [102, 111, 111, 0, 0, 0, 0, 0, 0, 0, 0, 0, 0, 0, 0, 0]\<rparr>"

definition accept_all :: "Event \<Rightarrow> bool" where
  "accept_all event = True"

text \<open>
  Two watches, 1 and 3; a sink whose first read delivers a record of descriptor 3 and
  whose second read delivers a record of descriptor 1.
\<close>

definition rec_bar_1 :: wire_record where
  "rec_bar_1 = \<lparr>r_wd = 1, r_mask = 256, r_cookie = 0,
                r_name = [98, 97, 114, 0, 0, 0, 0, 0, 0, 0, 0, 0, 0, 0, 0, 0]\<rparr>"

definition rec_baz_3 :: wire_record where
  "rec_baz_3 = \<lparr>r_wd = 3, r_mask = 512, r_cookie = 0,
                r_name = [98, 97, 122, 0, 0, 0, 0, 0, 0, 0, 0, 0, 0, 0, 0, 0]\<rparr>"

definition ev_bar_1 :: InotifyEvent where
  "ev_bar_1 = \<lparr>e_wd = 1, e_mask = 256, e_cookie = 0, e_len = 16, e_name = [98, 97, 114]\<rparr>"

definition ev_baz_3 :: InotifyEvent where
  "ev_baz_3 = \<lparr>e_wd = 3, e_mask = 512, e_cookie = 0, e_len = 16, e_name = [98, 97, 122]\<rparr>"

definition busy_sink :: "nat \<Rightarrow> sink_read" where
  "busy_sink k =
     (if k = 0 then \<lparr>delivered = Some (encode rec_baz_3), code = SUCCESS\<rparr>
      else if k = 1 then \<lparr>delivered = Some (encode rec_bar_1), code = SUCCESS\<rparr>
      else no_data)"

definition st_two_polled :: inotify where
  "st_two_polled =
     \<lparr>event_queue = [ev_create_delete, ev_ignored],
      sigs = [b_create, b_create_delete],
      watches = [\<lparr>w_mask = 768, w_path = ''/tmp/d'', w_wd = 1\<rparr>,
                 \<lparr>w_mask = 768, w_path = ''/tmp/e'', w_wd = 3\<rparr>]\<rparr>"

lemmas example_defs =
  st_polled_def ev_create_delete_def ev_ignored_def b_create_def b_create_delete_def
  no_data_def quiet_sink_def

section \<open>Facts about the loops\<close>

lemma exists_loop_iff: "exists_loop ws d \<longleftrightarrow> d \<in> w_wd ` set ws"
  by (induction ws) auto

lemma sig_exists_loop_iff: "sig_exists_loop ss d m \<longleftrightarrow> (d, m) \<in> binding_key ` set ss"
  by (induction ss) (auto simp: binding_key_def)

lemma detach_loop_fst: "fst (detach_loop ss d m) = sig_exists_loop ss d m"
  by (induction ss) (auto split: prod.splits)

lemma detach_loop_split:
  "sig_exists_loop ss d m \<Longrightarrow>
     \<exists>pre b post. ss = pre @ b # post \<and> binding_key b = (d, m) \<and>
        (\<forall>x \<in> set pre. binding_key x \<noteq> (d, m)) \<and> detach_loop ss d m = (True, pre @ post)"
proof (induction ss)
  case Nil
  then show ?case by simp
next
  case (Cons s ss)
  show ?case
  proof (cases "s_wd s = d \<and> s_mask s = m")
    case True
    then have "s # ss = [] @ s # ss \<and> binding_key s = (d, m) \<and>
        (\<forall>x \<in> set []. binding_key x \<noteq> (d, m)) \<and> detach_loop (s # ss) d m = (True, [] @ ss)"
      by (simp add: binding_key_def)
    then show ?thesis by blast
  next
    case False
    with Cons.prems have "sig_exists_loop ss d m" by auto
    from Cons.IH [OF this] obtain pre b post where
      *: "ss = pre @ b # post" "binding_key b = (d, m)"
         "\<forall>x \<in> set pre. binding_key x \<noteq> (d, m)" "detach_loop ss d m = (True, pre @ post)"
      by blast
    with False have "s # ss = (s # pre) @ b # post \<and> binding_key b = (d, m) \<and>
        (\<forall>x \<in> set (s # pre). binding_key x \<noteq> (d, m)) \<and>
        detach_loop (s # ss) d m = (True, (s # pre) @ post)"
      by (auto simp: binding_key_def)
    then show ?thesis by blast
  qed
qed

lemma detach_loop_absent:
  "\<not> sig_exists_loop ss d m \<Longrightarrow> detach_loop ss d m = (False, ss)"
  by (induction ss) (auto split: if_splits)

lemma detach_loop_distinct:
  "distinct (map binding_key ss) \<Longrightarrow>
     snd (detach_loop ss d m) = filter (\<lambda>s. binding_key s \<noteq> (d, m)) ss"
proof (induction ss)
  case Nil
  then show ?case by simp
next
  case (Cons s ss)
  show ?case
  proof (cases "binding_key s = (d, m)")
    case True
    with Cons.prems have "\<forall>x \<in> set ss. binding_key x \<noteq> (d, m)" by force
    then have "filter (\<lambda>s. binding_key s \<noteq> (d, m)) ss = ss" by (simp add: filter_id_conv)
    with True show ?thesis by (simp add: binding_key_def)
  next
    case False
    with Cons show ?thesis by (auto simp: binding_key_def split: prod.splits)
  qed
qed

lemma raise_loop_filter:
  "raise_loop ss d ev = filter (\<lambda>s. s_wd s = d \<and> (s_mask s AND e_mask ev) \<noteq> 0) ss"
  by (induction ss) auto

lemma attach_valid:
  assumes "exists d st" and "sig_attach h" and "distinct (map binding_key (sigs st))"
  shows "attach sig_attach d m h st =
           (True, st\<lparr>sigs := filter (\<lambda>s. binding_key s \<noteq> (d, m)) (sigs st)
                                 @ [\<lparr>s_mask = m, s_sig = h, s_wd = d\<rparr>]\<rparr>)"
proof (cases "sig_exists d m st")
  case True
  from detach_loop_distinct [OF assms(3), of d m]
  have "snd (detach d m st) = st\<lparr>sigs := filter (\<lambda>s. binding_key s \<noteq> (d, m)) (sigs st)\<rparr>"
    by (cases "detach_loop (sigs st) d m") (simp add: detach_def)
  with True assms(1,2) show ?thesis by (simp add: attach_def)
next
  case False
  then have "\<forall>x \<in> set (sigs st). binding_key x \<noteq> (d, m)"
    by (force simp: sig_exists_def sig_exists_loop_iff)
  then have "filter (\<lambda>s. binding_key s \<noteq> (d, m)) (sigs st) = sigs st"
    by (simp add: filter_id_conv)
  with False assms(1,2) show ?thesis by (simp add: attach_def)
qed

lemma attach_keeps_keys_distinct:
  assumes "distinct (map binding_key (sigs st))"
  shows "distinct (map binding_key (sigs (snd (attach sig_attach d m h st))))"
proof -
  have f: "distinct (map binding_key (filter (\<lambda>s. binding_key s \<noteq> (d, m)) (sigs st)))"
    using assms by (simp add: distinct_map_filter)
  have "sigs (snd (detach d m st)) = filter (\<lambda>s. binding_key s \<noteq> (d, m)) (sigs st)"
    using detach_loop_distinct [OF assms, of d m]
    by (cases "detach_loop (sigs st) d m") (simp add: detach_def)
  moreover have "\<not> sig_exists d m st \<Longrightarrow> (d, m) \<notin> binding_key ` set (sigs st)"
    by (simp add: sig_exists_def sig_exists_loop_iff)
  ultimately show ?thesis
    using f assms by (auto simp: attach_def Let_def) (auto simp: binding_key_def)
qed

lemma detach_wd_loop_eq:
  "detach_wd_loop seen ss d success =
     (if d \<in> s_wd ` set ss then Inl Erased_Iterator_Advanced else Inr (success, seen @ ss))"
  by (induction ss arbitrary: seen) auto

lemma detach_wd_eq:
  "detach_wd d st =
     (if d \<in> s_wd ` set (sigs st) then Inl Erased_Iterator_Advanced else Inr (False, st))"
  by (simp add: detach_wd_def detach_wd_loop_eq)

lemma rm_watch_path_loop_find:
  "rm_watch_path_loop k ws p =
     (case find (\<lambda>w. w_path w = p) ws of
        None \<Rightarrow> (False, - 1, ws)
      | Some w \<Rightarrow> (k (w_wd w) = 0, w_wd w, remove1 w ws))"
proof (induction ws)
  case Nil
  then show ?case by simp
next
  case (Cons x ws)
  show ?case
  proof (cases "w_path x = p")
    case True
    then show ?thesis by simp
  next
    case False
    have "\<And>w. find (\<lambda>w. w_path w = p) ws = Some w \<Longrightarrow> x \<noteq> w"
      using False by (auto simp: find_Some_iff)
    with False Cons.IH show ?thesis
      by (auto split: option.splits)
  qed
qed

lemma update_watch_loop_distinct:
  assumes "distinct (map w_wd ws)" and "d \<in> w_wd ` set ws"
  shows "update_watch_loop ws d m = (d, map (\<lambda>x. if w_wd x = d then x\<lparr>w_mask := m\<rparr> else x) ws)"
  using assms
proof (induction ws)
  case Nil
  then show ?case by simp
next
  case (Cons w ws)
  show ?case
  proof (cases "w_wd w = d")
    case True
    from Cons.prems have "w_wd w \<notin> w_wd ` set ws" by simp
    with True have "\<forall>x \<in> set ws. w_wd x \<noteq> d" by (metis imageI)
    then have "map (\<lambda>x. if w_wd x = d then x\<lparr>w_mask := m\<rparr> else x) ws = ws"
      by (simp add: map_idI)
    with True show ?thesis by simp
  next
    case False
    with Cons show ?thesis by auto
  qed
qed

lemma add_watch_keeps_wds_distinct:
  assumes "distinct (map w_wd (watches st))"
  shows "distinct (map w_wd (watches (snd (add_watch kernel_wd p m st))))"
proof (cases "kernel_wd \<in> w_wd ` set (watches st)")
  case True
  from update_watch_loop_distinct [OF assms True, of m]
  have "watches (snd (add_watch kernel_wd p m st)) =
          map (\<lambda>x. if w_wd x = kernel_wd then x\<lparr>w_mask := m\<rparr> else x) (watches st)"
    using True by (simp add: add_watch_def exists_def exists_loop_iff update_watch_def)
  moreover have "map w_wd (map (\<lambda>x. if w_wd x = kernel_wd then x\<lparr>w_mask := m\<rparr> else x) (watches st))
                   = map w_wd (watches st)"
    by (simp add: comp_def if_distrib cong: if_cong)
  ultimately have "map w_wd (watches (snd (add_watch kernel_wd p m st))) = map w_wd (watches st)"
    by (simp only:)
  with assms show ?thesis by (simp only:)
next
  case False
  with assms show ?thesis
    by (simp add: add_watch_def exists_def exists_loop_iff)
qed

subsection \<open>The parser\<close>

lemma update_queue_loop_step:
  assumes "rest \<noteq> []" and "\<not> length rest \<le> sizeof_inotify_event" and "InotifyEvent_of rest = Some ev"
  shows "update_queue_loop rest q =
           update_queue_loop (drop (sizeof_inotify_event + unat (e_len ev)) rest) (q @ [ev])"
  using assms by (simp add: update_queue_loop.simps [of rest])

lemma update_queue_loop_append:
  "update_queue_loop data q =
     (case update_queue_loop data [] of Inl f \<Rightarrow> Inl f | Inr (parsed, evs) \<Rightarrow> Inr (parsed, q @ evs))"
proof (induction "length data" arbitrary: data q rule: less_induct)
  case less
  show ?case
  proof (cases "data = [] \<or> length data \<le> sizeof_inotify_event \<or> InotifyEvent_of data = None")
    case True
    then show ?thesis
      by (auto simp: update_queue_loop.simps [of data])
  next
    case False
    then obtain ev where ev: "InotifyEvent_of data = Some ev" by auto
    let ?rest = "drop (sizeof_inotify_event + unat (e_len ev)) data"
    from False have shorter: "length ?rest < length data"
      by (auto simp: sizeof_inotify_event_def)
    have step: "update_queue_loop data q' = update_queue_loop ?rest (q' @ [ev])" for q'
      using False ev by (intro update_queue_loop_step) auto
    have ih: "update_queue_loop ?rest q' =
        (case update_queue_loop ?rest [] of Inl f \<Rightarrow> Inl f
         | Inr (parsed, evs) \<Rightarrow> Inr (parsed, q' @ evs))" for q'
      using shorter by (rule less.hyps)
    show ?thesis
      by (simp only: step [of q] step [of "[]"])
         (subst ih [of "q @ [ev]"], subst ih [of "[] @ [ev]"], simp split: sum.splits)
  qed
qed

lemma le32_enc32: "le32 (enc32 w @ rest) = w"
proof -
  let ?v = "ucast (ucast w :: byte) OR push_bit 8 (ucast (ucast (drop_bit 8 w) :: byte) OR
          push_bit 8 (ucast (ucast (drop_bit 16 w) :: byte) OR
          push_bit 8 (ucast (ucast (drop_bit 24 w) :: byte)))) :: u32"
  have "?v = w"
  proof (rule bit_word_eqI)
    fix n :: nat
    assume n: "n < LENGTH(32)"
    consider "n < 8" | "8 \<le> n" "n < 16" | "16 \<le> n" "n < 24" | "24 \<le> n"
      by linarith
    then show "bit ?v n = bit w n"
    proof cases
      case 1
      with n show ?thesis by (simp add: bit_simps)
    next
      case 2
      then have "8 + (n - 8) = n" "n - 8 < 8" by simp_all
      with n 2 show ?thesis by (auto simp: bit_simps)
    next
      case 3
      then have "16 + (n - 16) = n" "n - 16 < 8" "8 \<le> n" "\<not> n - 8 < 8" by simp_all
      with n 3 show ?thesis by (auto simp: bit_simps)
    next
      case 4
      then have "24 + (n - 24) = n" "16 \<le> n" "8 \<le> n" "\<not> n - 8 < 8" "\<not> n - 16 < 8" by simp_all
      with n 4 show ?thesis by (auto simp: bit_simps)
    qed
  qed
  then show ?thesis by (simp add: le32_def enc32_def)
qed

lemma length_enc32: "length (enc32 w) = 4"
  by (simp add: enc32_def)

lemma c_string_terminated:
  "0 \<in> set nm \<Longrightarrow> c_string (nm @ rest) = Some (takeWhile (\<lambda>b. b \<noteq> 0) nm)"
  by (auto simp: c_string_def intro: takeWhile_append1)

lemma InotifyEvent_of_encode:
  assumes "terminated_name r"
  shows "InotifyEvent_of (encode r @ rest) = Some (event_of r)"
proof -
  have w: "le32 (encode r @ rest) = r_wd r"
    by (simp add: encode_def le32_enc32)
  have m: "le32 (drop 4 (encode r @ rest)) = r_mask r"
    by (simp add: encode_def length_enc32 le32_enc32)
  have c: "le32 (drop 8 (encode r @ rest)) = r_cookie r"
    by (simp add: encode_def length_enc32 le32_enc32)
  have l: "le32 (drop 12 (encode r @ rest)) = of_nat (length (r_name r))"
    by (simp add: encode_def length_enc32 le32_enc32)
  have n: "drop sizeof_inotify_event (encode r @ rest) = r_name r @ rest"
    by (simp add: encode_def length_enc32 sizeof_inotify_event_def)
  from assms have "c_string (r_name r @ rest) = Some (takeWhile (\<lambda>b. b \<noteq> 0) (r_name r))"
    by (simp add: terminated_name_def c_string_terminated)
  with w m c l n show ?thesis
    by (simp add: InotifyEvent_of_def event_of_def)
qed

lemma update_queue_loop_record:
  assumes "terminated_name r"
  shows "update_queue_loop (encode r @ rest) q = update_queue_loop rest (q @ [event_of r])"
proof -
  from assms have ne: "r_name r \<noteq> []" by (auto simp: terminated_name_def)
  have len: "length (encode r) = sizeof_inotify_event + length (r_name r)"
    by (simp add: encode_def length_enc32 sizeof_inotify_event_def)
  from assms have "unat (e_len (event_of r)) = length (r_name r)"
    by (simp add: event_of_def terminated_name_def of_nat_inverse)
  with len have d: "drop (sizeof_inotify_event + unat (e_len (event_of r))) (encode r @ rest) = rest"
    by simp
  from ne len have 1: "encode r @ rest \<noteq> []"
    and 2: "\<not> length (encode r @ rest) \<le> sizeof_inotify_event"
    by auto
  have "update_queue_loop (encode r @ rest) q =
          update_queue_loop (drop (sizeof_inotify_event + unat (e_len (event_of r))) (encode r @ rest))
            (q @ [event_of r])"
    by (rule update_queue_loop_step [OF 1 2 InotifyEvent_of_encode [OF assms]])
  then show ?thesis by (simp only: d)
qed

lemma update_queue_loop_records:
  assumes "\<forall>r \<in> set rs. terminated_name r"
  shows "update_queue_loop (concat (map encode rs) @ rest) q
           = update_queue_loop rest (q @ map event_of rs)"
  using assms
proof (induction rs arbitrary: q)
  case Nil
  then show ?case by simp
next
  case (Cons r rs)
  then show ?case by (simp add: update_queue_loop_record)
qed

lemma update_queue_complete:
  assumes "\<forall>r \<in> set rs. terminated_name r"
  shows "update_queue (concat (map encode rs)) st
           = Inr (True, st\<lparr>event_queue := event_queue st @ map event_of rs\<rparr>)"
  using update_queue_loop_records [OF assms, of "[]"]
  by (simp add: update_queue_def update_queue_loop.simps [of "[]"])

lemma update_queue_loop_header_only:
  "length rest = sizeof_inotify_event \<Longrightarrow> update_queue_loop rest q = Inr (False, q)"
  by (auto simp: update_queue_loop.simps [of rest] sizeof_inotify_event_def)

lemma encode_rec_foo:
  "encode rec_foo = [5, 0, 0, 0,  0, 1, 0, 0,  0, 0, 0, 0,  16, 0, 0, 0,
                     102, 111, 111, 0, 0, 0, 0, 0, 0, 0, 0, 0, 0, 0, 0, 0]"
  by (simp add: encode_def enc32_def rec_foo_def)

lemma emit_data_accepts_zero_name_length:
  "emit_data True 16 accept_all self_event_record 16
     = Inr (True, [\<lparr>ev_wd = 1, ev_mask = 1024, ev_cookie = 0, ev_name = []\<rparr>])"
  by (simp add: emit_data_def Event_at_def accept_all_def self_event_record_def
        sizeof_inotify_event_def le32_def)

subsection \<open>Polling\<close>

lemma pollFd_eq:
  assumes "pollFd r st = Inr (ok, st1)"
  shows "st1 = st\<lparr>event_queue := event_queue st @ arrived r\<rparr>"
    and "ok \<longleftrightarrow> code r = SUCCESS \<or> code r = NO_DATA"
proof -
  show "ok \<longleftrightarrow> code r = SUCCESS \<or> code r = NO_DATA"
    using assms by (auto simp: pollFd_def Let_def split: option.splits sum.splits)
  show "st1 = st\<lparr>event_queue := event_queue st @ arrived r\<rparr>"
  proof (cases "delivered r")
    case None
    with assms show ?thesis by (simp add: pollFd_def arrived_def Let_def)
  next
    case (Some data)
    with assms show ?thesis
      by (subst (asm) pollFd_def, auto simp add: update_queue_def arrived_def Let_def
            update_queue_loop_append [of data "event_queue st"] split: sum.splits prod.splits)
  qed
qed

lemma raise_loop_fires: "raise_loop ss d ev = filter (fires d ev) ss"
  by (induction ss) (auto simp: fires_def)

lemma poll_loop_eq:
  "poll_loop ss d q =
     (filter (\<lambda>ev. e_wd ev \<noteq> d) q,
      map (\<lambda>ev. (ev, filter (fires d ev) ss)) (filter (\<lambda>ev. e_wd ev = d) q))"
  by (induction q) (auto simp: raise_loop_fires)

lemma poll_wd_eq:
  assumes "pollFd r st = Inr (True, st1)"
  shows "poll_wd r d st =
           Inr (True, st1\<lparr>event_queue := filter (\<lambda>ev. e_wd ev \<noteq> d) (event_queue st1)\<rparr>,
                map (\<lambda>ev. (ev, filter (fires d ev) (sigs st1))) (filter (\<lambda>ev. e_wd ev = d) (event_queue st1)))"
  using assms by (simp add: poll_wd_def poll_loop_eq)

lemma poll_all_loop_failed:
  "poll_all_loop reads i ws False st log = Inr (False, st, log)"
  by (induction ws) auto

lemma mset_filter_insert:
  "mset (filter (\<lambda>x. f x = d) xs) + mset (filter (\<lambda>x. f x \<noteq> d \<and> f x \<in> S) xs)
     = mset (filter (\<lambda>x. f x \<in> insert d S) xs)"
  by (induction xs) auto

lemma poll_all_loop_exact:
  assumes "poll_all_loop reads i ws success st log = Inr (True, st', log')"
  shows "success \<and>
         st' = st\<lparr>event_queue :=
                 filter (\<lambda>ev. e_wd ev \<notin> w_wd ` set ws) (event_queue st)
                 @ concat (map (\<lambda>k. filter (\<lambda>ev. e_wd ev \<notin> w_wd ` set (drop k ws))
                                        (arrived (reads (i + k)))) [0..<length ws])\<rparr> \<and>
         mset log' = mset log + mset (map (\<lambda>ev. (ev, filter (fires (e_wd ev) ev) (sigs st)))
               (filter (\<lambda>ev. e_wd ev \<in> w_wd ` set ws) (event_queue st)
                @ concat (map (\<lambda>k. filter (\<lambda>ev. e_wd ev \<in> w_wd ` set (drop k ws))
                                       (arrived (reads (i + k)))) [0..<length ws])))"
  using assms
proof (induction ws arbitrary: i success st log)
  case Nil
  then show ?case by simp
next
  case (Cons w ws)
  have success: success
  proof (rule ccontr)
    assume "\<not> success"
    with Cons.prems show False by (simp add: poll_all_loop_failed)
  qed
  with Cons.prems obtain ok st1 log1 where
    p: "poll_wd (reads i) (w_wd w) st = Inr (ok, st1, log1)" and
    rest: "poll_all_loop reads (Suc i) ws ok st1 (log @ log1) = Inr (True, st', log')"
    by (auto split: sum.splits)
  note ih = Cons.IH [OF rest]
  then have ok by simp
  with p obtain stp where pf: "pollFd (reads i) st = Inr (True, stp)"
    by (auto simp: poll_wd_def split: sum.splits if_splits prod.splits)
  let ?d = "w_wd w"
  let ?S = "w_wd ` set ws"
  let ?g = "\<lambda>ev. (ev, filter (fires (e_wd ev) ev) (sigs st))"
  let ?x = "event_queue st @ arrived (reads i)"
  let ?stay = "concat (map (\<lambda>k. filter (\<lambda>ev. e_wd ev \<notin> w_wd ` set (drop k ws))
                                        (arrived (reads (Suc i + k)))) [0..<length ws])"
  let ?go = "concat (map (\<lambda>k. filter (\<lambda>ev. e_wd ev \<in> w_wd ` set (drop k ws))
                                        (arrived (reads (Suc i + k)))) [0..<length ws])"
  from pollFd_eq(1) [OF pf] have stp: "stp = st\<lparr>event_queue := ?x\<rparr>" .
  from poll_wd_eq [OF pf, of ?d] p stp
  have st1: "st1 = st\<lparr>event_queue := filter (\<lambda>ev. e_wd ev \<noteq> ?d) ?x\<rparr>"
    and log1: "log1 = map (\<lambda>ev. (ev, filter (fires ?d ev) (sigs st))) (filter (\<lambda>ev. e_wd ev = ?d) ?x)"
    by simp_all
  have log1': "log1 = map ?g (filter (\<lambda>ev. e_wd ev = ?d) ?x)"
    unfolding log1 by (rule map_cong) auto
  from ih st1 have q': "st' = st\<lparr>event_queue :=
        filter (\<lambda>ev. e_wd ev \<notin> ?S) (filter (\<lambda>ev. e_wd ev \<noteq> ?d) ?x) @ ?stay\<rparr>"
    by simp
  have f1: "filter (\<lambda>ev. e_wd ev \<notin> ?S) (filter (\<lambda>ev. e_wd ev \<noteq> ?d) ?x)
      = filter (\<lambda>ev. e_wd ev \<notin> w_wd ` set (w # ws)) (event_queue st)
        @ filter (\<lambda>ev. e_wd ev \<notin> w_wd ` set (drop 0 (w # ws))) (arrived (reads (i + 0)))"
    by (simp add: conj_commute)
  have queue: "st' = st\<lparr>event_queue :=
                 filter (\<lambda>ev. e_wd ev \<notin> w_wd ` set (w # ws)) (event_queue st)
                 @ concat (map (\<lambda>k. filter (\<lambda>ev. e_wd ev \<notin> w_wd ` set (drop k (w # ws)))
                                        (arrived (reads (i + k)))) [0..<length (w # ws)])\<rparr>"
    unfolding q' f1 by (simp add: map_upt_Suc del: upt_Suc)
  from ih st1 have "mset log' = mset (log @ log1)
      + mset (map ?g (filter (\<lambda>ev. e_wd ev \<in> ?S) (filter (\<lambda>ev. e_wd ev \<noteq> ?d) ?x) @ ?go))"
    by simp
  then have "mset log' = mset log
      + image_mset ?g (mset (filter (\<lambda>ev. e_wd ev = ?d) ?x)
          + mset (filter (\<lambda>ev. e_wd ev \<in> ?S) (filter (\<lambda>ev. e_wd ev \<noteq> ?d) ?x)))
      + image_mset ?g (mset ?go)"
    unfolding log1' by (simp add: add.assoc)
  then have "mset log' = mset log
      + image_mset ?g (mset (filter (\<lambda>ev. e_wd ev \<in> insert ?d ?S) ?x))
      + image_mset ?g (mset ?go)"
    by (simp only: filter_filter mset_filter_insert)
  then have logs: "mset log' = mset log + mset (map ?g
               (filter (\<lambda>ev. e_wd ev \<in> w_wd ` set (w # ws)) (event_queue st)
                @ concat (map (\<lambda>k. filter (\<lambda>ev. e_wd ev \<in> w_wd ` set (drop k (w # ws)))
                                       (arrived (reads (i + k)))) [0..<length (w # ws)])))"
    by (simp add: map_upt_Suc add.assoc del: upt_Suc)
  from success queue logs show ?case by blast
qed

lemma pollFd_one_record:
  assumes "terminated_name r"
  shows "pollFd \<lparr>delivered = Some (encode r), code = SUCCESS\<rparr> st
           = Inr (True, st\<lparr>event_queue := event_queue st @ [event_of r]\<rparr>)"
  using update_queue_complete [of "[r]" st] assms by (simp add: pollFd_def)

lemma example_records:
  "terminated_name rec_bar_1" "terminated_name rec_baz_3"
  "event_of rec_bar_1 = ev_bar_1" "event_of rec_baz_3 = ev_baz_3"
  by (simp_all add: terminated_name_def event_of_def rec_bar_1_def rec_baz_3_def
        ev_bar_1_def ev_baz_3_def)

lemma pollFd_busy_sink:
  "pollFd (busy_sink 0) st = Inr (True, st\<lparr>event_queue := event_queue st @ [ev_baz_3]\<rparr>)"
  "pollFd (busy_sink 1) st = Inr (True, st\<lparr>event_queue := event_queue st @ [ev_bar_1]\<rparr>)"
  using pollFd_one_record [OF example_records(2), of st] pollFd_one_record [OF example_records(1), of st]
  by (simp_all add: busy_sink_def example_records)

lemma poll_all_busy_example:
  "poll_all busy_sink st_two_polled
     = Inr (True, st_two_polled\<lparr>event_queue := [ev_ignored, ev_bar_1]\<rparr>,
            [(ev_create_delete, [b_create, b_create_delete]), (ev_baz_3, [])])"
proof -
  let ?st1 = "st_two_polled\<lparr>event_queue := [ev_ignored, ev_baz_3]\<rparr>"
  have 1: "poll_wd (busy_sink 0) 1 st_two_polled
             = Inr (True, ?st1, [(ev_create_delete, [b_create, b_create_delete])])"
    using poll_wd_eq [OF pollFd_busy_sink(1), of 1 st_two_polled]
    by (simp add: st_two_polled_def ev_create_delete_def ev_ignored_def ev_baz_3_def
          b_create_def b_create_delete_def fires_def)
  have 2: "poll_wd (busy_sink 1) 3 ?st1
             = Inr (True, st_two_polled\<lparr>event_queue := [ev_ignored, ev_bar_1]\<rparr>, [(ev_baz_3, [])])"
    using poll_wd_eq [OF pollFd_busy_sink(2), of 3 ?st1]
    by (simp add: st_two_polled_def ev_ignored_def ev_baz_3_def ev_bar_1_def
          b_create_def b_create_delete_def fires_def)
  have "watches st_two_polled = [\<lparr>w_mask = 768, w_path = ''/tmp/d'', w_wd = 1\<rparr>,
                 \<lparr>w_mask = 768, w_path = ''/tmp/e'', w_wd = 3\<rparr>]"
    by (simp add: st_two_polled_def)
  with 1 2 show ?thesis by (simp add: poll_all_def)
qed

section \<open>Dispatch of a directed poll\<close>

text \<open>
  C1.  Let the read of the sink succeed and leave the state \<open>st1\<close>.  \<open>poll(d)\<close>
  then returns true and dispatches exactly the queued events of descriptor \<open>d\<close>, in
  queue order.  For a queued event and a binding of the table, the binding is raised
  for the event if and only if the binding's descriptor is the event's descriptor, that
  descriptor is \<open>d\<close>, and the two masks share a bit.  The bindings raised for one
  event are the matching bindings in the order of the table, which is the order of
  their insertion (\<open>attach\<close> appends): two bindings of one descriptor whose masks both
  overlap the event's mask are both raised, the older first.
\<close>

theorem poll_wd_dispatch:
  assumes "pollFd r st = Inr (True, st1)"
  shows "\<exists>st' log.
           poll_wd r d st = Inr (True, st', log) \<and>
           event_queue st' = filter (\<lambda>ev. e_wd ev \<noteq> d) (event_queue st1) \<and>
           log = map (\<lambda>ev. (ev, filter (fires d ev) (sigs st))) (filter (\<lambda>ev. e_wd ev = d) (event_queue st1)) \<and>
           (\<forall>ev \<in> set (event_queue st1). \<forall>b \<in> set (sigs st).
              (\<exists>fired. (ev, fired) \<in> set log \<and> b \<in> set fired)
                \<longleftrightarrow> s_wd b = e_wd ev \<and> e_wd ev = d \<and> (e_mask ev AND s_mask b) \<noteq> 0)"
proof -
  from pollFd_eq(1) [OF assms] have sg: "sigs st1 = sigs st" by simp
  let ?log = "map (\<lambda>ev. (ev, filter (fires d ev) (sigs st))) (filter (\<lambda>ev. e_wd ev = d) (event_queue st1))"
  have "(\<exists>fired. (ev, fired) \<in> set ?log \<and> b \<in> set fired)
          \<longleftrightarrow> s_wd b = e_wd ev \<and> e_wd ev = d \<and> (e_mask ev AND s_mask b) \<noteq> 0"
    if "ev \<in> set (event_queue st1)" and "b \<in> set (sigs st)" for ev b
    using that by (auto simp: fires_def and.commute)
  with poll_wd_eq [OF assms, of d] sg show ?thesis by simp
qed

theorem poll_wd_dispatch_witness:
  "pollFd no_data st_polled = Inr (True, st_polled) \<and>
   (\<exists>st'. poll_wd no_data 1 st_polled
            = Inr (True, st', [(ev_create_delete, [b_create, b_create_delete])]) \<and>
          event_queue st' = [ev_ignored])"
proof -
  have p: "pollFd no_data st_polled = Inr (True, st_polled)"
    by (simp add: pollFd_def no_data_def)
  from poll_wd_dispatch [OF p, of 1] obtain st' log where
    "poll_wd no_data 1 st_polled = Inr (True, st', log)"
    "event_queue st' = filter (\<lambda>ev. e_wd ev \<noteq> 1) (event_queue st_polled)"
    "log = map (\<lambda>ev. (ev, filter (fires 1 ev) (sigs st_polled)))
             (filter (\<lambda>ev. e_wd ev = 1) (event_queue st_polled))"
    by blast
  moreover have "filter (\<lambda>ev. e_wd ev \<noteq> 1) (event_queue st_polled) = [ev_ignored]"
    by (simp add: example_defs)
  moreover have "map (\<lambda>ev. (ev, filter (fires 1 ev) (sigs st_polled)))
             (filter (\<lambda>ev. e_wd ev = 1) (event_queue st_polled))
          = [(ev_create_delete, [b_create, b_create_delete])]"
    by (simp add: example_defs fires_def)
  ultimately show ?thesis using p by simp
qed

section \<open>Re-adding a watched path\<close>

text \<open>
  C2, as the claim states it, at a concrete input: the registry holds one watch, with
  descriptor 1 and mask \<open>0x300\<close>, for \<open>/tmp/d\<close>.  When the kernel answers
  \<open>add_watch("/tmp/d", 0x200)\<close> with the new descriptor 2 (the directory was removed
  and created again, and the kernel dropped its watch), a second entry for the path is
  appended, 2 is returned and the first entry keeps its mask; when the kernel answers
  \<open>-1\<close>, that is returned and nothing changes.
\<close>

theorem add_watch_fresh_descriptor_counterexample:
  "watches st_one_binding = [\<lparr>w_mask = 768, w_path = ''/tmp/d'', w_wd = 1\<rparr>] \<and>
   add_watch 2 ''/tmp/d'' 512 st_one_binding
     = (2, st_one_binding\<lparr>watches := [\<lparr>w_mask = 768, w_path = ''/tmp/d'', w_wd = 1\<rparr>,
                                        \<lparr>w_mask = 512, w_path = ''/tmp/d'', w_wd = 2\<rparr>]\<rparr>) \<and>
   add_watch (- 1) ''/tmp/d'' 512 st_one_binding = (- 1, st_one_binding)"
  by (simp add: add_watch_def exists_def st_one_binding_def)

text \<open>What \<open>add_watch\<close> does when the kernel returns the descriptor of the watch \<open>w\<close>.\<close>

lemma add_watch_same_descriptor:
  assumes "w \<in> set (watches st)" and "kernel_wd = w_wd w"
    and "distinct (map w_wd (watches st))"
  shows "\<exists>st'. add_watch kernel_wd p m st = (w_wd w, st') \<and>
           watches st' = map (\<lambda>x. if x = w then x\<lparr>w_mask := m\<rparr> else x) (watches st) \<and>
           map w_path (watches st') = map w_path (watches st) \<and>
           map w_wd (watches st') = map w_wd (watches st) \<and>
           w\<lparr>w_mask := m\<rparr> \<in> set (watches st') \<and>
           sigs st' = sigs st \<and> event_queue st' = event_queue st"
proof -
  let ?ws' = "map (\<lambda>x. if w_wd x = w_wd w then x\<lparr>w_mask := m\<rparr> else x) (watches st)"
  from assms(1) have ex: "w_wd w \<in> w_wd ` set (watches st)" by simp
  have same: "\<And>x. x \<in> set (watches st) \<Longrightarrow> w_wd x = w_wd w \<longleftrightarrow> x = w"
    using assms(1,3) by (auto simp: distinct_map inj_on_def)
  then have ws': "?ws' = map (\<lambda>x. if x = w then x\<lparr>w_mask := m\<rparr> else x) (watches st)"
    by (intro map_cong) auto
  have "add_watch kernel_wd p m st = (w_wd w, st\<lparr>watches := ?ws'\<rparr>)"
    using ex update_watch_loop_distinct [OF assms(3) ex, of m] assms(2)
    by (simp add: add_watch_def exists_def exists_loop_iff update_watch_def)
  moreover have "map w_path ?ws' = map w_path (watches st)"
    by (simp add: comp_def if_distrib cong: if_cong)
  moreover have "map w_wd ?ws' = map w_wd (watches st)"
    by (simp add: comp_def if_distrib cong: if_cong)
  moreover have "w\<lparr>w_mask := m\<rparr> \<in> set ?ws'"
    using assms(1) by force
  ultimately show ?thesis using ws' by simp
qed

text \<open>
  C2, amended.  \<open>add_watch\<close> knows a watch by the descriptor the kernel returns, not
  by its path.  When the kernel returns the descriptor of a registered watch, as
  \<open>inotify_add_watch\<close> does for a path it still watches, the stored mask of that
  watch is replaced by the new one (not merged), the descriptor is returned and no
  entry is created: paths, descriptors and every other watch are as before.  When it
  returns a descriptor that is not registered, an entry is appended, whether or not
  the path has one.  When it returns \<open>-1\<close>, that is returned and the registry is
  unchanged.  The descriptors of the registry are distinct, as in every state
  \<open>add_watch\<close> builds (\<open>add_watch_keeps_wds_distinct\<close>).
\<close>

theorem add_watch_by_descriptor:
  assumes "distinct (map w_wd (watches st))"
  shows "add_watch kernel_wd p m st =
           (if kernel_wd \<in> w_wd ` set (watches st)
            then (kernel_wd,
                  st\<lparr>watches := map (\<lambda>x. if w_wd x = kernel_wd then x\<lparr>w_mask := m\<rparr> else x) (watches st)\<rparr>)
            else if kernel_wd \<noteq> - 1
              then (kernel_wd,
                    st\<lparr>watches := watches st @ [\<lparr>w_mask = m, w_path = p, w_wd = kernel_wd\<rparr>]\<rparr>)
              else (- 1, st)) \<and>
         (\<forall>w \<in> set (watches st). w_wd w = kernel_wd \<longrightarrow>
            (\<exists>st'. add_watch kernel_wd p m st = (w_wd w, st') \<and>
               watches st' = map (\<lambda>x. if x = w then x\<lparr>w_mask := m\<rparr> else x) (watches st) \<and>
               map w_path (watches st') = map w_path (watches st) \<and>
               map w_wd (watches st') = map w_wd (watches st) \<and>
               w\<lparr>w_mask := m\<rparr> \<in> set (watches st') \<and>
               sigs st' = sigs st \<and> event_queue st' = event_queue st))"
proof (intro conjI ballI impI)
  show "add_watch kernel_wd p m st =
           (if kernel_wd \<in> w_wd ` set (watches st)
            then (kernel_wd,
                  st\<lparr>watches := map (\<lambda>x. if w_wd x = kernel_wd then x\<lparr>w_mask := m\<rparr> else x) (watches st)\<rparr>)
            else if kernel_wd \<noteq> - 1
              then (kernel_wd,
                    st\<lparr>watches := watches st @ [\<lparr>w_mask = m, w_path = p, w_wd = kernel_wd\<rparr>]\<rparr>)
              else (- 1, st))"
  proof (cases "kernel_wd \<in> w_wd ` set (watches st)")
    case True
    from update_watch_loop_distinct [OF assms True, of m] True show ?thesis
      by (simp add: add_watch_def exists_def exists_loop_iff update_watch_def)
  next
    case False
    then show ?thesis
      by (simp add: add_watch_def exists_def exists_loop_iff)
  qed
next
  fix w assume "w \<in> set (watches st)" and "w_wd w = kernel_wd"
  then show "\<exists>st'. add_watch kernel_wd p m st = (w_wd w, st') \<and>
               watches st' = map (\<lambda>x. if x = w then x\<lparr>w_mask := m\<rparr> else x) (watches st) \<and>
               map w_path (watches st') = map w_path (watches st) \<and>
               map w_wd (watches st') = map w_wd (watches st) \<and>
               w\<lparr>w_mask := m\<rparr> \<in> set (watches st') \<and>
               sigs st' = sigs st \<and> event_queue st' = event_queue st"
    using add_watch_same_descriptor [of w st kernel_wd p m] assms by simp
qed

theorem add_watch_by_descriptor_witness:
  "add_watch 1 ''/tmp/d'' 512 st_one_binding =
     (1, st_one_binding\<lparr>watches := [\<lparr>w_mask = 512, w_path = ''/tmp/d'', w_wd = 1\<rparr>]\<rparr>)"
proof -
  have "distinct (map w_wd (watches st_one_binding))"
    by (simp add: st_one_binding_def)
  from add_watch_by_descriptor [OF this, of 1 "''/tmp/d''" 512]
  show ?thesis by (simp add: st_one_binding_def)
qed

section \<open>Detaching every handler of a descriptor\<close>

text \<open>
  C3.  \<open>detach(d)\<close> is meant to remove every binding of \<open>d\<close> and to return whether
  there was one.  On a table with a single binding of descriptor 1, \<open>detach(1)\<close>
  erases the node and then advances the erased iterator: the call has no defined
  result.
\<close>

theorem detach_wd_erases_then_advances:
  "detach_wd 1 st_one_binding = Inl Erased_Iterator_Advanced"
  by (simp add: detach_wd_def st_one_binding_def)

section \<open>Draining the queue into the caller's list\<close>

text \<open>
  What \<open>poll(out_queue)\<close> does after a successful read: the internal queue is empty
  afterwards and no handler is involved; the caller's list receives the queued events
  when there are any and is left as it was when there are none.  A second call that
  finds no data therefore returns the list unchanged.
\<close>

lemma poll_queue_eq:
  assumes "pollFd r st = Inr (True, st1)"
  shows "\<exists>st' out'.
           poll_queue r out_queue st = Inr (True, st', out') \<and>
           event_queue st' = [] \<and> sigs st' = sigs st \<and> watches st' = watches st \<and>
           out' = (if event_queue st1 = [] then out_queue else event_queue st1) \<and>
           poll_queue no_data out' st' = Inr (True, st', out')"
proof -
  from pollFd_eq(1) [OF assms] have same: "sigs st1 = sigs st" "watches st1 = watches st"
    by simp_all
  let ?st' = "st1\<lparr>event_queue := []\<rparr>"
  let ?out' = "if event_queue st1 = [] then out_queue else event_queue st1"
  have first: "poll_queue r out_queue st = Inr (True, ?st', ?out')"
    using assms by (simp add: poll_queue_def)
  have "pollFd no_data ?st' = Inr (True, ?st')"
    by (simp add: pollFd_def no_data_def)
  then have "poll_queue no_data ?out' ?st' = Inr (True, ?st', ?out')"
    by (simp add: poll_queue_def)
  with first same show ?thesis by simp
qed

text \<open>
  C4.  The comment of \<open>poll(std::list<InotifyEvent>&)\<close> promises that the events are
  moved to the list, "meaning that calling this again will produce an empty list
  (unless new events occurred on the file descriptor)".  With two events queued, a first
  call on an empty list returns them and empties the internal queue; a second call
  right after it, on the same list and with nothing to read, finds the internal queue
  empty, skips the assignment and returns the list still holding the two events.
\<close>

theorem poll_queue_second_call_keeps_events:
  "poll_queue no_data [] st_polled
     = Inr (True, st_polled\<lparr>event_queue := []\<rparr>, [ev_create_delete, ev_ignored]) \<and>
   poll_queue no_data [ev_create_delete, ev_ignored] (st_polled\<lparr>event_queue := []\<rparr>)
     = Inr (True, st_polled\<lparr>event_queue := []\<rparr>, [ev_create_delete, ev_ignored])"
  by (simp add: poll_queue_def pollFd_def example_defs)

section \<open>Polling every watch\<close>

text \<open>
  C5, as the claim states it, at two concrete inputs.  First: the registry watches
  descriptor 1, the queue holds an event of descriptor 1 and an \<open>IN_IGNORED\<close> event of
  descriptor 2 (what the kernel sends after a watch is removed), nothing new arrives.
  \<open>poll()\<close> succeeds, dispatches the first event and leaves the second in the queue,
  without a dispatch attempt: only registered descriptors are polled.  Second: the
  registry watches 1 and 3, in this order, and the read made for watch 3 brings an
  event of descriptor 1.  Watch 1 has been polled by then, so this event stays in the
  queue after the successful \<open>poll()\<close>; the event of descriptor 3 that the first read
  brought is dispatched (to no binding) and removed.
\<close>

theorem poll_all_unregistered_counterexample:
  "poll_all quiet_sink st_polled
     = Inr (True, st_polled\<lparr>event_queue := [ev_ignored]\<rparr>,
            [(ev_create_delete, [b_create, b_create_delete])]) \<and>
   poll_all busy_sink st_two_polled
     = Inr (True, st_two_polled\<lparr>event_queue := [ev_ignored, ev_bar_1]\<rparr>,
            [(ev_create_delete, [b_create, b_create_delete]), (ev_baz_3, [])])"
  by (simp add: poll_all_busy_example) (simp add: poll_all_def poll_wd_def pollFd_def example_defs)

text \<open>
  C5, amended.  \<open>poll()\<close> polls the watches in registry order and reads the sink once
  before each; \<open>arrived (reads k)\<close> are the events of the read made for the \<open>k\<close>-th
  watch.  After a successful \<open>poll()\<close> nothing but the queue has changed, and:
  \<^item> the dispatches are, each exactly once, the events queued at the call whose
    descriptor is registered and the events of read \<open>k\<close> whose descriptor belongs to
    the \<open>k\<close>-th watch or a later one; each raises the matching bindings of the table,
    none when no binding matches, and the event is discarded all the same;
  \<^item> the final queue is what remains, in order: the events queued at the call whose
    descriptor is not registered, followed for each read \<open>k\<close> by its events whose
    descriptor belongs to no watch from the \<open>k\<close>-th on.
\<close>

theorem poll_all_registered_events:
  assumes "poll_all reads st = Inr (True, st', log)"
  shows "st' = st\<lparr>event_queue :=
                 filter (\<lambda>ev. e_wd ev \<notin> w_wd ` set (watches st)) (event_queue st)
                 @ concat (map (\<lambda>k. filter (\<lambda>ev. e_wd ev \<notin> w_wd ` set (drop k (watches st)))
                                        (arrived (reads k))) [0..<length (watches st)])\<rparr> \<and>
         mset log = mset (map (\<lambda>ev. (ev, filter (fires (e_wd ev) ev) (sigs st)))
               (filter (\<lambda>ev. e_wd ev \<in> w_wd ` set (watches st)) (event_queue st)
                @ concat (map (\<lambda>k. filter (\<lambda>ev. e_wd ev \<in> w_wd ` set (drop k (watches st)))
                                       (arrived (reads k))) [0..<length (watches st)])))"
proof -
  from assms have "poll_all_loop reads 0 (watches st) True st [] = Inr (True, st', log)"
    by (simp add: poll_all_def)
  from poll_all_loop_exact [OF this] show ?thesis by simp
qed

theorem poll_all_registered_events_witness:
  "poll_all busy_sink st_two_polled
     = Inr (True, st_two_polled\<lparr>event_queue := [ev_ignored, ev_bar_1]\<rparr>,
            [(ev_create_delete, [b_create, b_create_delete]), (ev_baz_3, [])]) \<and>
   st_two_polled\<lparr>event_queue := [ev_ignored, ev_bar_1]\<rparr>
     = st_two_polled\<lparr>event_queue :=
         filter (\<lambda>ev. e_wd ev \<notin> w_wd ` set (watches st_two_polled)) (event_queue st_two_polled)
         @ concat (map (\<lambda>k. filter (\<lambda>ev. e_wd ev \<notin> w_wd ` set (drop k (watches st_two_polled)))
                                (arrived (busy_sink k))) [0..<length (watches st_two_polled)])\<rparr> \<and>
   mset [(ev_create_delete, [b_create, b_create_delete]), (ev_baz_3, [])]
     = mset (map (\<lambda>ev. (ev, filter (fires (e_wd ev) ev) (sigs st_two_polled)))
          (filter (\<lambda>ev. e_wd ev \<in> w_wd ` set (watches st_two_polled)) (event_queue st_two_polled)
           @ concat (map (\<lambda>k. filter (\<lambda>ev. e_wd ev \<in> w_wd ` set (drop k (watches st_two_polled)))
                                  (arrived (busy_sink k))) [0..<length (watches st_two_polled)])))"
  using poll_all_busy_example poll_all_registered_events [OF poll_all_busy_example]
  by (intro conjI) blast+

section \<open>A final record without a name\<close>

text \<open>
  C6.  The buffer is one complete record with \<open>len = 0\<close>, sixteen bytes.  The check
  \<open>data + size <= p + sizeof(struct inotify_event)\<close> holds with equality, so
  \<open>update_queue\<close> takes the record for an incomplete write: it returns false and
  queues nothing.  (\<open>emit_data_accepts_zero_name_length\<close>: on the same bytes the
  loop of \<open>_emit_data\<close>, which has no such check, raises the event and returns true;
  \<open>update_queue_loop_header_only\<close>: the same happens to every buffer whose last
  record has no name.)
\<close>

theorem update_queue_rejects_zero_name_length:
  "update_queue self_event_record st_watch_5 = Inr (False, st_watch_5)"
  by (simp add: update_queue_def update_queue_loop.simps self_event_record_def
        sizeof_inotify_event_def st_watch_5_def)

section \<open>A truncated final record\<close>

text \<open>
  C7, as the claim states it, at a concrete input: the header of the only record
  announces a name field of sixteen bytes and the buffer ends two bytes after the
  header.  \<open>update_queue\<close> checks the header only: it queues an event built from the
  truncated record and returns true.
\<close>

theorem update_queue_cut_name_counterexample:
  "length cut_name_record = 18 \<and> le32 (drop 12 cut_name_record) = 16 \<and>
   update_queue cut_name_record st_watch_5 =
     Inr (True, st_watch_5\<lparr>event_queue :=
            [\<lparr>e_wd = 1, e_mask = 256, e_cookie = 0, e_len = 16, e_name = [97]\<rparr>]\<rparr>)"
  by (simp add: update_queue_def update_queue_loop.simps cut_name_record_def
        sizeof_inotify_event_def st_watch_5_def InotifyEvent_of_def c_string_def le32_def)

text \<open>
  C7, amended.  For a buffer of complete records with zero-terminated names followed
  by a fragment shorter than the header, \<open>update_queue\<close> stops at the fragment and
  discards it, has appended the events of the records before it to the queue, in
  order, and returns false, the only failure value it has.  \<open>pollFd\<close> keeps those
  events and succeeds or fails with the status code of the sink alone.
\<close>

theorem update_queue_truncated_header:
  assumes "\<forall>r \<in> set rs. terminated_name r"
    and "tail \<noteq> []" and "length tail < sizeof_inotify_event"
  shows "update_queue (concat (map encode rs) @ tail) st
           = Inr (False, st\<lparr>event_queue := event_queue st @ map event_of rs\<rparr>) \<and>
         pollFd \<lparr>delivered = Some (concat (map encode rs) @ tail), code = c\<rparr> st
           = Inr (c = SUCCESS \<or> c = NO_DATA,
                  st\<lparr>event_queue := event_queue st @ map event_of rs\<rparr>)"
proof -
  from assms(2,3) have "update_queue_loop tail q = Inr (False, q)" for q
    by (simp add: update_queue_loop.simps [of tail])
  with update_queue_loop_records [OF assms(1)]
  have "update_queue (concat (map encode rs) @ tail) st
           = Inr (False, st\<lparr>event_queue := event_queue st @ map event_of rs\<rparr>)"
    by (simp add: update_queue_def)
  then show ?thesis by (simp add: pollFd_def)
qed

theorem update_queue_truncated_header_witness:
  "update_queue (concat (map encode [rec_foo]) @ [5, 0, 0]) st_watch_5
     = Inr (False, st_watch_5\<lparr>event_queue :=
              [\<lparr>e_wd = 5, e_mask = 256, e_cookie = 0, e_len = 16, e_name = [102, 111, 111]\<rparr>]\<rparr>)"
proof -
  have "\<forall>r \<in> set [rec_foo]. terminated_name r" "[5, 0, 0 :: byte] \<noteq> []"
    "length [5, 0, 0 :: byte] < sizeof_inotify_event"
    by (simp_all add: terminated_name_def rec_foo_def sizeof_inotify_event_def)
  from update_queue_truncated_header [OF this, of st_watch_5 SUCCESS]
  show ?thesis by (simp add: event_of_def rec_foo_def st_watch_5_def)
qed

section \<open>Removing a watch by path\<close>

text \<open>
  C8, as the claim states it, at a concrete input: the registry holds one watch, with
  descriptor 5, for \<open>/tmp/d\<close>; the kernel call succeeds.  \<open>rm_watch("/tmp/d")\<close> removes
  the watch and returns 1, which is not the descriptor.
\<close>

theorem rm_watch_path_descriptor_counterexample:
  "map w_wd (watches st_watch_5) = [5] \<and>
   rm_watch_path kernel_rm_ok ''/tmp/d'' st_watch_5 = Inr (1, st_watch_5\<lparr>watches := []\<rparr>)"
  by (simp add: st_watch_5_def rm_watch_path_def detach_wd_def kernel_rm_ok_def)

text \<open>
  C8, amended.  \<open>rm_watch(p)\<close> returns a success flag: 1 when the registry holds a
  watch for \<open>p\<close> and \<open>inotify_rm_watch\<close> returned 0 for its descriptor, 0 when that
  call failed or no watch exists for \<open>p\<close>.  The first watch for \<open>p\<close> leaves the
  registry; nothing else changes.  Stated for a descriptor no handler is bound to (the
  descriptor is \<open>-1\<close> when no watch was found).
\<close>

theorem rm_watch_path_returns_flag:
  assumes "\<forall>s \<in> set (sigs st).
             s_wd s \<noteq> (case find (\<lambda>w. w_path w = p) (watches st) of None \<Rightarrow> - 1 | Some w \<Rightarrow> w_wd w)"
  shows "rm_watch_path inotify_rm_watch p st =
           (case find (\<lambda>w. w_path w = p) (watches st) of
              None \<Rightarrow> Inr (0, st)
            | Some w \<Rightarrow>
                Inr (if inotify_rm_watch (w_wd w) = 0 then 1 else 0,
                     st\<lparr>watches := remove1 w (watches st)\<rparr>))"
proof (cases "find (\<lambda>w. w_path w = p) (watches st)")
  case None
  with assms have "- 1 \<notin> s_wd ` set (sigs st)" by auto
  with None show ?thesis
    by (simp add: rm_watch_path_def rm_watch_path_loop_find detach_wd_eq)
next
  case (Some w)
  with assms have "w_wd w \<notin> s_wd ` set (sigs st)" by auto
  with Some show ?thesis
    by (simp add: rm_watch_path_def rm_watch_path_loop_find detach_wd_eq)
qed

theorem rm_watch_path_returns_flag_witness:
  "rm_watch_path kernel_rm_ok ''/tmp/f'' st_two_watches
     = Inr (1, st_two_watches\<lparr>watches := [\<lparr>w_mask = 768, w_path = ''/tmp/d'', w_wd = 1\<rparr>]\<rparr>)"
proof -
  have "\<forall>s \<in> set (sigs st_two_watches).
          s_wd s \<noteq> (case find (\<lambda>w. w_path w = ''/tmp/f'') (watches st_two_watches) of
                       None \<Rightarrow> - 1 | Some w \<Rightarrow> w_wd w)"
    by (simp add: st_two_watches_def b_create_def)
  from rm_watch_path_returns_flag [OF this, of kernel_rm_ok]
  show ?thesis by (simp add: st_two_watches_def kernel_rm_ok_def)
qed

section \<open>Re-attaching a handler\<close>

text \<open>
  C9.  On a registered descriptor \<open>d\<close>, \<open>attach(d, m, h1)\<close> followed by
  \<open>attach(d, m, h2)\<close>, both with callables that \<open>Signal::attach\<close> accepts, succeed
  without a \<open>detach\<close> in between and leave exactly one binding with the key \<open>(d, m)\<close>,
  the one holding \<open>h2\<close>, at the end of the table; the other bindings keep their order.
  For an event on \<open>d\<close> whose mask shares a bit with \<open>m\<close>, the dispatch loop raises
  the matching bindings among the others and then \<open>h2\<close>: no binding of \<open>h1\<close> for
  \<open>(d, m)\<close> is left to fire.  The table is one that \<open>attach\<close> built: its keys are
  distinct.
\<close>

theorem attach_twice_last_wins:
  assumes "exists d st" and "sig_attach h1" and "sig_attach h2"
    and "distinct (map binding_key (sigs st))"
  shows "\<exists>st1 st2.
           attach sig_attach d m h1 st = (True, st1) \<and>
           attach sig_attach d m h2 st1 = (True, st2) \<and>
           sigs st2 = filter (\<lambda>s. binding_key s \<noteq> (d, m)) (sigs st)
                        @ [\<lparr>s_mask = m, s_sig = h2, s_wd = d\<rparr>] \<and>
           filter (\<lambda>s. binding_key s = (d, m)) (sigs st2) = [\<lparr>s_mask = m, s_sig = h2, s_wd = d\<rparr>] \<and>
           (\<forall>ev. e_wd ev = d \<and> (m AND e_mask ev) \<noteq> 0 \<longrightarrow>
              raise_loop (sigs st2) d ev =
                raise_loop (filter (\<lambda>s. binding_key s \<noteq> (d, m)) (sigs st)) d ev
                  @ [\<lparr>s_mask = m, s_sig = h2, s_wd = d\<rparr>])"
proof -
  let ?others = "filter (\<lambda>s. binding_key s \<noteq> (d, m)) (sigs st)"
  let ?b1 = "\<lparr>s_mask = m, s_sig = h1, s_wd = d\<rparr>"
  let ?b2 = "\<lparr>s_mask = m, s_sig = h2, s_wd = d\<rparr>"
  let ?st1 = "st\<lparr>sigs := ?others @ [?b1]\<rparr>"
  let ?st2 = "?st1\<lparr>sigs := ?others @ [?b2]\<rparr>"
  have a1: "attach sig_attach d m h1 st = (True, ?st1)"
    using assms(1,2,4) by (rule attach_valid)
  have ex1: "exists d ?st1" using assms(1) by (simp add: exists_def)
  have "distinct (map binding_key ?others)"
    using assms(4) by (simp add: distinct_map_filter)
  then have d1: "distinct (map binding_key (sigs ?st1))"
    by (auto simp: binding_key_def)
  have a2: "attach sig_attach d m h2 ?st1 = (True, ?st2)"
    using attach_valid [where sig_attach = sig_attach and h = h2 and m = m, OF ex1 assms(3) d1]
    by (simp add: binding_key_def)
  have f: "filter (\<lambda>s. binding_key s = (d, m)) (sigs ?st2) = [?b2]"
    by (simp add: binding_key_def)
  have r: "\<forall>ev. e_wd ev = d \<and> (m AND e_mask ev) \<noteq> 0 \<longrightarrow>
              raise_loop (sigs ?st2) d ev = raise_loop ?others d ev @ [?b2]"
    by (simp add: raise_loop_filter)
  from a1 a2 f r show ?thesis by auto
qed

theorem attach_twice_last_wins_witness:
  "\<exists>st1 st2.
     attach (\<lambda>h. h \<noteq> []) 2 256 ''modify_callback'' st_two_bindings = (True, st1) \<and>
     attach (\<lambda>h. h \<noteq> []) 2 256 ''delete_callback'' st1 = (True, st2) \<and>
     sigs st2 = [\<lparr>s_mask = 768, s_sig = ''create_delete_callback'', s_wd = 2\<rparr>,
                 \<lparr>s_mask = 256, s_sig = ''delete_callback'', s_wd = 2\<rparr>]"
proof -
  have "exists 2 st_two_bindings" "(\<lambda>h. h \<noteq> []) ''modify_callback''" "(\<lambda>h. h \<noteq> []) ''delete_callback''"
    "distinct (map binding_key (sigs st_two_bindings))"
    by (simp_all add: st_two_bindings_def exists_def binding_key_def)
  from attach_twice_last_wins
         [where d = 2 and st = st_two_bindings and m = 256 and sig_attach = "\<lambda>h. h \<noteq> []"
            and ?h1.0 = "''modify_callback''" and ?h2.0 = "''delete_callback''", OF this]
  obtain st1 st2 where
    "attach (\<lambda>h. h \<noteq> []) 2 256 ''modify_callback'' st_two_bindings = (True, st1)"
    "attach (\<lambda>h. h \<noteq> []) 2 256 ''delete_callback'' st1 = (True, st2)"
    "sigs st2 = filter (\<lambda>s. binding_key s \<noteq> (2, 256)) (sigs st_two_bindings)
                  @ [\<lparr>s_mask = 256, s_sig = ''delete_callback'', s_wd = 2\<rparr>]"
    by blast
  moreover have "filter (\<lambda>s. binding_key s \<noteq> (2, 256)) (sigs st_two_bindings)
      = [\<lparr>s_mask = 768, s_sig = ''create_delete_callback'', s_wd = 2\<rparr>]"
    by (simp add: st_two_bindings_def binding_key_def)
  ultimately show ?thesis by simp
qed

section \<open>A rejected handler on an existing binding\<close>

text \<open>
  C10.  When \<open>attach(d, m, h)\<close> is called on a registered descriptor while a binding
  with the key \<open>(d, m)\<close> exists and \<open>Signal::attach\<close> rejects \<open>h\<close>, the call returns
  false and the table has lost the first binding with that key: \<open>detach(d, m)\<close> ran
  before the handler was checked.
\<close>

theorem attach_invalid_handler_loses_binding:
  assumes "exists d st" and "sig_exists d m st" and "\<not> sig_attach h"
  shows "\<exists>pre b post.
           sigs st = pre @ b # post \<and> binding_key b = (d, m) \<and>
           (\<forall>x \<in> set pre. binding_key x \<noteq> (d, m)) \<and>
           attach sig_attach d m h st = (False, st\<lparr>sigs := pre @ post\<rparr>)"
proof -
  from assms(2) have "sig_exists_loop (sigs st) d m" by (simp add: sig_exists_def)
  from detach_loop_split [OF this] obtain pre b post where
    *: "sigs st = pre @ b # post" "binding_key b = (d, m)"
       "\<forall>x \<in> set pre. binding_key x \<noteq> (d, m)"
       "detach_loop (sigs st) d m = (True, pre @ post)"
    by blast
  from assms *(4) have "attach sig_attach d m h st = (False, st\<lparr>sigs := pre @ post\<rparr>)"
    by (simp add: attach_def detach_def)
  with * show ?thesis by blast
qed

theorem attach_invalid_handler_loses_binding_witness:
  "attach (\<lambda>h. h \<noteq> []) 1 256 [] st_one_binding = (False, st_one_binding\<lparr>sigs := []\<rparr>)"
proof -
  have "exists 1 st_one_binding" "sig_exists 1 256 st_one_binding" "\<not> (\<lambda>h. h \<noteq> []) ([]::handler)"
    by (simp_all add: st_one_binding_def exists_def sig_exists_def)
  from attach_invalid_handler_loses_binding
         [where d = 1 and st = st_one_binding and m = 256 and sig_attach = "\<lambda>h. h \<noteq> []" and h = "[]", OF this]
  show ?thesis
    by (auto simp: st_one_binding_def append_eq_Cons_conv Cons_eq_append_conv)
qed

end
